theory Spec2Isabelle
  imports Complex_Main
begin

section \<open>Robot baseball: the fast solver of robot\_baseball\_fast.py\<close>

text \<open>
  The embedding follows the Python source function by function. Python floats are
  modelled as \<^typ>\<open>real\<close>: every arithmetic operation is the exact one, so rounding,
  infinities and NaN are outside the model, and the literals \<open>1e-18\<close>, \<open>1e-14\<close> and
  \<open>0.05\<close> are the exact decimal fractions. One value is kept as the double it is: the
  constant \<open>gr\<close> of the golden-section search. The two exceptions the arithmetic and the
  list accesses of the source can raise are values of \<open>py_error\<close>, and every function
  that can raise returns \<open>py_error + 'a\<close>.
\<close>

subsection \<open>Errors, division and list access\<close>

datatype py_error = ZeroDivisionError | IndexError

definition bindE :: "py_error + 'a \<Rightarrow> ('a \<Rightarrow> py_error + 'b) \<Rightarrow> py_error + 'b" where
  "bindE m k = (case m of Inl e \<Rightarrow> Inl e | Inr x \<Rightarrow> k x)"

text \<open>Python's \<open>x / y\<close> on floats raises ZeroDivisionError when \<open>y\<close> is zero.\<close>

definition py_truediv :: "real \<Rightarrow> real \<Rightarrow> py_error + real" where
  "py_truediv x y = (if y = 0 then Inl ZeroDivisionError else Inr (x / y))"

text \<open>
  \<open>xs[i]\<close> with a non-negative index: IndexError out of range. All indices of the source
  are built from the loop variables \<open>b\<close>, \<open>s\<close> and the constants 0, 3, 4, so they are
  never negative and \<^typ>\<open>nat\<close> is their type.
\<close>

definition list_get :: "'a list \<Rightarrow> nat \<Rightarrow> py_error + 'a" where
  "list_get xs i = (if i < length xs then Inr (xs ! i) else Inl IndexError)"

text \<open>
  A grid is a list of rows, as \<open>[[0.0]*4 for _ in range(5)]\<close> builds it: five distinct
  row objects of four floats. \<open>g[b][s]\<close> reads row \<open>b\<close> and then its entry \<open>s\<close>;
  \<open>g[b][s] = v\<close> reads row \<open>b\<close> and stores into it. The rows are never aliased, so the
  store is the update of one entry of the nested list.
\<close>

type_synonym grid = "real list list"

definition zeros :: grid where
  "zeros = replicate 5 (replicate 4 0)"

definition grid_get :: "grid \<Rightarrow> nat \<Rightarrow> nat \<Rightarrow> py_error + real" where
  "grid_get g b s = bindE (list_get g b) (\<lambda>row. list_get row s)"

definition grid_set :: "grid \<Rightarrow> nat \<Rightarrow> nat \<Rightarrow> real \<Rightarrow> py_error + grid" where
  "grid_set g b s v =
     bindE (list_get g b)
       (\<lambda>row. if s < length row then Inr (g[b := row[s := v]]) else Inl IndexError)"

text \<open>A \<open>for\<close> loop over a fixed sequence, threading the state and stopping at an error.\<close>

fun for_each :: "'a list \<Rightarrow> ('a \<Rightarrow> 'st \<Rightarrow> py_error + 'st) \<Rightarrow> 'st \<Rightarrow> py_error + 'st" where
  "for_each [] body st = Inr st"
| "for_each (x # xs) body st =
     (case body x st of Inl e \<Rightarrow> Inl e | Inr st' \<Rightarrow> for_each xs body st')"

subsection \<open>The core dynamic program\<close>

text \<open>\<open>_equilibrium_r(A, B, p)\<close>, lines 28 to 34.\<close>

definition equilibrium_r :: "real \<Rightarrow> real \<Rightarrow> real \<Rightarrow> py_error + real" where
  "equilibrium_r A B p =
     (let denom = (A - B) + p * (4 - B) in
      if \<bar>denom\<bar> < 1 / 10 ^ 18 then Inr 0
      else py_truediv (p * (4 - B)) denom)"

text \<open>
  Lines 40 to 44 of \<open>_q_of_p\<close>: the grid \<open>V\<close> after the first loop over the terminals,
  which stores 1.0 into \<open>V[4][s]\<close> for \<open>s\<close> in \<open>range(4)\<close>.
\<close>

definition walk_terminals :: "py_error + grid" where
  "walk_terminals = for_each [0 ..< 4] (\<lambda>s V. grid_set V 4 s 1) zeros"

text \<open>
  Lines 40 to 46: the grid \<open>V\<close> after the second loop, which stores 0.0 into \<open>V[b][3]\<close>
  for \<open>b\<close> in \<open>range(5)\<close>. It runs after the first, so it has the last word on
  \<open>V[4][3]\<close>.
\<close>

definition terminals :: "py_error + grid" where
  "terminals =
     bindE walk_terminals (\<lambda>V. for_each [0 ..< 5] (\<lambda>b V. grid_set V b 3 0) V)"

text \<open>The body of the backward induction for \<open>V\<close> and \<open>r\<close>, lines 52 to 56.\<close>

definition value_cell :: "real \<Rightarrow> nat \<Rightarrow> nat \<Rightarrow> grid \<times> grid \<Rightarrow> py_error + grid \<times> grid" where
  "value_cell p s b st =
     (case st of (V, r) \<Rightarrow>
        bindE (grid_get V (b + 1) s) (\<lambda>A.
        bindE (grid_get V b (s + 1)) (\<lambda>B.
        bindE (equilibrium_r A B p) (\<lambda>rr.
        bindE (grid_set r b s rr) (\<lambda>r'.
        bindE (grid_set V b s (B + (A - B) * rr)) (\<lambda>V'.
        Inr (V', r')))))))"

text \<open>Lines 40 to 56: the grids \<open>V\<close> and \<open>r\<close> at the end of the value pass.\<close>

definition value_pass :: "real \<Rightarrow> py_error + grid \<times> grid" where
  "value_pass p =
     bindE terminals (\<lambda>V.
       for_each [2, 1, 0] (\<lambda>s. for_each [3, 2, 1, 0] (\<lambda>b. value_cell p s b)) (V, zeros))"

text \<open>The body of the loop for \<open>F\<close>, lines 65 to 68; \<open>continue\<close> leaves the grid as it is.\<close>

definition reach_cell :: "real \<Rightarrow> grid \<Rightarrow> nat \<Rightarrow> nat \<Rightarrow> grid \<Rightarrow> py_error + grid" where
  "reach_cell p r s b F =
     (if b = 3 \<and> s = 2 then Inr F
      else
        bindE (grid_get r b s) (\<lambda>rr.
        bindE (grid_get F (b + 1) s) (\<lambda>F1.
        bindE (grid_get F b (s + 1)) (\<lambda>F2.
        grid_set F b s
          ((rr * rr) * F1 + (1 - rr * rr - (1 - rr) * (1 - rr) * p) * F2)))))"

text \<open>Lines 59 to 68: the grid \<open>F\<close> at the end of the full-count pass, from the grid \<open>r\<close>.\<close>

definition reach_pass :: "real \<Rightarrow> grid \<Rightarrow> py_error + grid" where
  "reach_pass p r =
     bindE (grid_set zeros 3 2 1) (\<lambda>F.
       for_each [2, 1, 0] (\<lambda>s. for_each [3, 2, 1, 0] (\<lambda>b. reach_cell p r s b)) F)"

text \<open>\<open>_q_of_p(p)\<close>, lines 36 to 70.\<close>

definition q_of_p :: "real \<Rightarrow> py_error + real" where
  "q_of_p p =
     bindE (value_pass p) (\<lambda>(V, r).
     bindE (reach_pass p r) (\<lambda>F.
     grid_get F 0 0))"

subsection \<open>The maximizer\<close>

text \<open>
  The constant \<open>gr = (5**0.5 - 1.0) / 2.0\<close> of \<open>_golden_max\<close>, line 76. It is computed
  in floating point before any argument is used, and it is kept here as the double it is,
  \<open>0x1.3c6ef372fe950p-1 = 347922205179541 / 2^49\<close>: the square root of 5 rounded to the
  nearest double, minus 1 and halved, both exactly. What the loop does to the width of the
  bracket depends on whether \<open>gr * gr = 1 - gr\<close>, which holds for the real number
  \<open>(sqrt 5 - 1) / 2\<close> and fails for this double, so the real number may not stand for it.
\<close>

definition gr :: real where
  "gr = 347922205179541 / 2 ^ 49"

text \<open>The local variables of \<open>_golden_max\<close> that the loop updates.\<close>

record gs_state =
  gs_a :: real
  gs_b :: real
  gs_c :: real
  gs_d :: real
  gs_fc :: real
  gs_fd :: real
  gs_it :: int

text \<open>
  The functions below are the parts of \<open>_golden_max\<close> after line 76, with the value of
  its local \<open>gr\<close> as the argument \<open>g\<close>; \<open>golden_max\<close> passes the constant above.

  The body of the \<open>while\<close> loop, lines 82 to 88.
\<close>

definition golden_step ::
  "real \<Rightarrow> (real \<Rightarrow> py_error + real) \<Rightarrow> gs_state \<Rightarrow> py_error + gs_state" where
  "golden_step g f st =
     (if gs_fc st < gs_fd st then
        (let a = gs_c st; c = gs_d st; fc = gs_fd st; d = a + g * (gs_b st - a) in
         bindE (f d) (\<lambda>fd.
           Inr (st\<lparr>gs_a := a, gs_c := c, gs_fc := fc, gs_d := d, gs_fd := fd,
                   gs_it := gs_it st + 1\<rparr>)))
      else
        (let b = gs_d st; d = gs_c st; fd = gs_fc st; c = b - g * (b - gs_a st) in
         bindE (f c) (\<lambda>fc.
           Inr (st\<lparr>gs_b := b, gs_d := d, gs_fd := fd, gs_c := c, gs_fc := fc,
                   gs_it := gs_it st + 1\<rparr>))))"

text \<open>
  The loop \<open>while (b-a) > tol and it < max_iter\<close>, line 81. Every iteration adds one to
  \<open>it\<close>, so \<open>max_iter - it\<close> decreases and the loop ends.
\<close>

function golden_loop ::
  "real \<Rightarrow> (real \<Rightarrow> py_error + real) \<Rightarrow> real \<Rightarrow> int \<Rightarrow> gs_state \<Rightarrow> py_error + gs_state" where
  "golden_loop g f tol max_iter st =
     (if gs_b st - gs_a st > tol \<and> gs_it st < max_iter then
        (case golden_step g f st of
           Inl e \<Rightarrow> Inl e
         | Inr st' \<Rightarrow> golden_loop g f tol max_iter st')
      else Inr st)"
  by pat_completeness auto
termination
proof (relation "measure (\<lambda>(g, f, tol, max_iter, st). nat (max_iter - gs_it st))")
  show "wf (measure (\<lambda>(g, f, tol, max_iter, st). nat (max_iter - gs_it st)))"
    by simp
next
  fix g :: real and f :: "real \<Rightarrow> py_error + real" and tol :: real and max_iter :: int
    and st st' :: gs_state
  assume run: "tol < gs_b st - gs_a st \<and> gs_it st < max_iter"
    and step: "golden_step g f st = Inr st'"
  from step have "gs_it st' = gs_it st + 1"
    by (auto simp: golden_step_def bindE_def Let_def split: if_splits sum.splits)
  with run show "((g, f, tol, max_iter, st'), (g, f, tol, max_iter, st))
      \<in> measure (\<lambda>(g, f, tol, max_iter, st). nat (max_iter - gs_it st))"
    by simp
qed

text \<open>Lines 77 to 80: the two interior points, their values, and the counter at 0.\<close>

definition golden_init ::
  "real \<Rightarrow> (real \<Rightarrow> py_error + real) \<Rightarrow> real \<Rightarrow> real \<Rightarrow> py_error + gs_state" where
  "golden_init g f a b =
     (let c = b - g * (b - a); d = a + g * (b - a) in
      bindE (f c) (\<lambda>fc.
      bindE (f d) (\<lambda>fd.
      Inr \<lparr>gs_a = a, gs_b = b, gs_c = c, gs_d = d, gs_fc = fc, gs_fd = fd, gs_it = 0\<rparr>)))"

text \<open>Lines 77 to 90: the search with the constant \<open>g\<close>.\<close>

definition golden_search ::
  "real \<Rightarrow> (real \<Rightarrow> py_error + real) \<Rightarrow> real \<Rightarrow> real \<Rightarrow> real \<Rightarrow> int \<Rightarrow>
   py_error + real \<times> real" where
  "golden_search g f a b tol max_iter =
     bindE (golden_init g f a b) (\<lambda>st0.
     bindE (golden_loop g f tol max_iter st0) (\<lambda>st.
     let x = (1 / 2) * (gs_a st + gs_b st) in
     bindE (f x) (\<lambda>fx. Inr (x, fx))))"

text \<open>
  \<open>_golden_max(f, a, b, tol, max_iter)\<close>, lines 74 to 90. The defaults of \<open>tol\<close> and
  \<open>max_iter\<close> are not used by the one call of the source, which passes both.
\<close>

definition golden_max ::
  "(real \<Rightarrow> py_error + real) \<Rightarrow> real \<Rightarrow> real \<Rightarrow> real \<Rightarrow> int \<Rightarrow> py_error + real \<times> real" where
  "golden_max f a b tol max_iter = golden_search gr f a b tol max_iter"

text \<open>
  The body of the coarse scan, lines 103 to 106; the state is \<open>(best_p, best_q)\<close>.
\<close>

definition scan_step ::
  "(real \<Rightarrow> py_error + real) \<Rightarrow> real \<Rightarrow> nat \<Rightarrow> real \<times> real \<Rightarrow> py_error + real \<times> real" where
  "scan_step f step i st =
     (case st of (best_p, best_q) \<Rightarrow>
        (let p = real i * step in
         bindE (f p) (\<lambda>qv.
           if qv > best_q then Inr (p, qv) else Inr (best_p, best_q))))"

text \<open>
  The coarse scan of \<open>solve_fast\<close>, lines 99 to 106, for \<open>n\<close> samples: \<open>f(0.0)\<close> is
  evaluated into \<open>q_prev\<close>, which is not read again, and the loop runs over
  \<open>range(1, n)\<close> from \<open>best_p = 0.0\<close>, \<open>best_q = -1.0\<close>.
\<close>

definition coarse_scan ::
  "(real \<Rightarrow> py_error + real) \<Rightarrow> nat \<Rightarrow> py_error + real \<times> real" where
  "coarse_scan f n =
     bindE (py_truediv 1 (real n - 1)) (\<lambda>step.
     bindE (f 0) (\<lambda>q_prev.
     for_each [1 ..< n] (scan_step f step) (0, - 1)))"

text \<open>\<open>solve_fast()\<close>, lines 92 to 114.\<close>

definition solve_fast :: "py_error + real \<times> real" where
  "solve_fast =
     (let f = q_of_p; n = 2049 in
      bindE (coarse_scan f n) (\<lambda>(best_p, best_q).
      let left = max 0 (best_p - 5 / 100); right = min 1 (best_p + 5 / 100) in
      golden_max f left right (1 / 10 ^ 14) 250))"

subsection \<open>Notions used in the proofs\<close>

text \<open>The entry \<open>g[b][s]\<close> of a grid that has it, and the grid with one entry replaced.\<close>

definition cell :: "grid \<Rightarrow> nat \<Rightarrow> nat \<Rightarrow> real" where
  "cell g b s = g ! b ! s"

definition grid_upd :: "grid \<Rightarrow> nat \<Rightarrow> nat \<Rightarrow> real \<Rightarrow> grid" where
  "grid_upd g b s v = g[b := (g ! b)[s := v]]"

text \<open>The shape of every grid of the program: five rows of four entries.\<close>

definition wf_grid :: "grid \<Rightarrow> bool" where
  "wf_grid g = (length g = 5 \<and> (\<forall>row \<in> set g. length row = 4))"

text \<open>The number \<open>_equilibrium_r\<close> returns, once it is known that it returns one.\<close>

definition mix :: "real \<Rightarrow> real \<Rightarrow> real \<Rightarrow> real" where
  "mix A B p =
     (if \<bar>(A - B) + p * (4 - B)\<bar> < 1 / 10 ^ 18 then 0
      else p * (4 - B) / ((A - B) + p * (4 - B)))"

text \<open>
  An order of the cells \<open>(s, b)\<close> in which the backward induction is sound: with the
  cells of \<open>done\<close> finished, each cell of the list is inside the grid's interior, is
  new, and is not a cell that a finished cell was computed from.
\<close>

fun dp_order :: "(nat \<times> nat) list \<Rightarrow> (nat \<times> nat) list \<Rightarrow> bool" where
  "dp_order done [] = True"
| "dp_order done (c # cs) =
     (fst c < 3 \<and> snd c < 4 \<and> c \<notin> set done \<and>
      (\<forall>c' \<in> set done. c \<noteq> (fst c', snd c' + 1) \<and> c \<noteq> (fst c' + 1, snd c')) \<and>
      dp_order (c # done) cs)"

text \<open>The twelve interior cells \<open>(s, b)\<close> in the order of the two nested loops.\<close>

definition cells :: "(nat \<times> nat) list" where
  "cells = concat (map (\<lambda>s. map (Pair s) [3, 2, 1, 0]) [2, 1, 0])"

text \<open>
  The grid \<open>V\<close> after the first loop over the terminals and when the backward induction
  starts, and the grid \<open>F\<close> when its loop starts.
\<close>

definition walk_grid :: grid where
  "walk_grid = [[0, 0, 0, 0], [0, 0, 0, 0], [0, 0, 0, 0], [0, 0, 0, 0], [1, 1, 1, 1]]"

definition terminal_grid :: grid where
  "terminal_grid = [[0, 0, 0, 0], [0, 0, 0, 0], [0, 0, 0, 0], [0, 0, 0, 0], [1, 1, 1, 0]]"

definition start_grid :: grid where
  "start_grid = [[0, 0, 0, 0], [0, 0, 0, 0], [0, 0, 0, 0], [0, 0, 1, 0], [0, 0, 0, 0]]"

text \<open>
  What the value pass leaves at an interior cell \<open>c = (s, b)\<close>: the mixing probability of
  its two neighbours and the value mixed with it.
\<close>

definition value_eqn :: "real \<Rightarrow> grid \<Rightarrow> grid \<Rightarrow> nat \<times> nat \<Rightarrow> bool" where
  "value_eqn p V r c =
     (cell r (snd c) (fst c) = mix (cell V (snd c + 1) (fst c)) (cell V (snd c) (fst c + 1)) p \<and>
      cell V (snd c) (fst c) =
        cell V (snd c) (fst c + 1) +
        (cell V (snd c + 1) (fst c) - cell V (snd c) (fst c + 1)) * cell r (snd c) (fst c))"

text \<open>What the full-count pass leaves at an interior cell \<open>c = (s, b)\<close> other than \<open>(2, 3)\<close>.\<close>

definition reach_eqn :: "real \<Rightarrow> grid \<Rightarrow> grid \<Rightarrow> nat \<times> nat \<Rightarrow> bool" where
  "reach_eqn p r F c =
     (cell F (snd c) (fst c) =
        (cell r (snd c) (fst c) * cell r (snd c) (fst c)) * cell F (snd c + 1) (fst c) +
        (1 - cell r (snd c) (fst c) * cell r (snd c) (fst c)
           - (1 - cell r (snd c) (fst c)) * (1 - cell r (snd c) (fst c)) * p) *
        cell F (snd c) (fst c + 1))"

text \<open>
  One run of the evaluator: the three grids it builds, their shape, the equations of the
  interior cells and the entries no loop writes.
\<close>

definition dp_run :: "real \<Rightarrow> grid \<Rightarrow> grid \<Rightarrow> grid \<Rightarrow> bool" where
  "dp_run p V r F =
     (value_pass p = Inr (V, r) \<and> reach_pass p r = Inr F \<and>
      q_of_p p = Inr (cell F 0 0) \<and> wf_grid V \<and> wf_grid r \<and> wf_grid F \<and>
      (\<forall>s b. s < 3 \<longrightarrow> b < 4 \<longrightarrow> value_eqn p V r (s, b)) \<and>
      (\<forall>b s. \<not> (s < 3 \<and> b < 4) \<longrightarrow>
         cell V b s = cell terminal_grid b s \<and> cell r b s = cell zeros b s) \<and>
      (\<forall>s b. s < 3 \<longrightarrow> b < 4 \<longrightarrow> \<not> (b = 3 \<and> s = 2) \<longrightarrow> reach_eqn p r F (s, b)) \<and>
      (\<forall>b s. \<not> (s < 3 \<and> b < 4) \<or> (b = 3 \<and> s = 2) \<longrightarrow> cell F b s = cell start_grid b s))"



section \<open>Proofs\<close>

subsection \<open>Grids and loops\<close>

lemma bindE_Inr [simp]: "bindE (Inr x) k = k x"
  by (simp add: bindE_def)

lemma bindE_Inl [simp]: "bindE (Inl e) k = Inl e"
  by (simp add: bindE_def)

lemma grid_get_wf:
  "wf_grid g \<Longrightarrow> b < 5 \<Longrightarrow> s < 4 \<Longrightarrow> grid_get g b s = Inr (cell g b s)"
  by (simp add: wf_grid_def grid_get_def list_get_def cell_def)

lemma grid_set_wf:
  "wf_grid g \<Longrightarrow> b < 5 \<Longrightarrow> s < 4 \<Longrightarrow> grid_set g b s v = Inr (grid_upd g b s v)"
  by (simp add: wf_grid_def grid_set_def list_get_def grid_upd_def)

lemma wf_grid_upd: "wf_grid g \<Longrightarrow> b < 5 \<Longrightarrow> wf_grid (grid_upd g b s v)"
  unfolding wf_grid_def grid_upd_def
  by (auto dest!: subsetD [OF set_update_subset_insert])

lemma cell_grid_upd:
  "wf_grid g \<Longrightarrow> b < 5 \<Longrightarrow> s < 4 \<Longrightarrow>
   cell (grid_upd g b s v) b' s' = (if b' = b \<and> s' = s then v else cell g b' s')"
  by (auto simp: wf_grid_def grid_upd_def cell_def nth_list_update)

lemma wf_zeros: "wf_grid zeros"
  by (simp add: wf_grid_def zeros_def)

lemma cell_zeros: "b < 5 \<Longrightarrow> s < 4 \<Longrightarrow> cell zeros b s = 0"
  by (simp add: cell_def zeros_def)

lemma equilibrium_r_mix: "equilibrium_r A B p = Inr (mix A B p)"
  by (auto simp: equilibrium_r_def mix_def py_truediv_def Let_def)

lemma walk_terminals_eq: "walk_terminals = Inr walk_grid"
  by (simp add: walk_terminals_def walk_grid_def zeros_def grid_set_def list_get_def upt_rec
      numeral_eq_Suc)

lemma strikeout_loop_eq:
  "for_each [0 ..< 5] (\<lambda>b V. grid_set V b 3 0) walk_grid =
   Inr [[0, 0, 0, 0], [0, 0, 0, 0], [0, 0, 0, 0], [0, 0, 0, 0], [1, 1, 1, 0]]"
  by (simp add: walk_grid_def grid_set_def list_get_def upt_rec numeral_eq_Suc)

lemma terminals_eq:
  "terminals = Inr [[0, 0, 0, 0], [0, 0, 0, 0], [0, 0, 0, 0], [0, 0, 0, 0], [1, 1, 1, 0]]"
  by (simp add: terminals_def walk_terminals_eq strikeout_loop_eq)

lemma wf_walk_grid: "wf_grid walk_grid"
  by (simp add: wf_grid_def walk_grid_def)

lemma cell_walk_grid: "s < 4 \<Longrightarrow> cell walk_grid 4 s = 1"
proof -
  assume "s < 4"
  then have "s = 0 \<or> s = 1 \<or> s = 2 \<or> s = 3" by arith
  then show ?thesis by (auto simp: cell_def walk_grid_def)
qed

lemma for_each_append:
  "for_each (xs @ ys) body st = bindE (for_each xs body st) (for_each ys body)"
  by (induction xs arbitrary: st) (auto simp: bindE_def split: sum.splits)

lemma for_each_map:
  "for_each (map g xs) body st = for_each xs (\<lambda>x. body (g x)) st"
  by (induction xs arbitrary: st) (auto split: sum.splits)

lemma for_each_nested:
  "for_each ss (\<lambda>s. for_each bs (body s)) st =
   for_each (concat (map (\<lambda>s. map (Pair s) bs) ss)) (\<lambda>c. body (fst c) (snd c)) st"
proof (induction ss arbitrary: st)
  case Nil
  show ?case by simp
next
  case (Cons s ss)
  show ?case
    by (simp add: for_each_append for_each_map Cons.IH bindE_def split: sum.splits)
qed

lemma dp_order_cells: "dp_order [] cells"
  by (simp add: cells_def)

lemma value_cell_wf:
  assumes "wf_grid V" "wf_grid r" "s < 3" "b < 4"
  shows "value_cell p s b (V, r) =
     Inr (grid_upd V b s
            (cell V b (s + 1) +
             (cell V (b + 1) s - cell V b (s + 1)) * mix (cell V (b + 1) s) (cell V b (s + 1)) p),
          grid_upd r b s (mix (cell V (b + 1) s) (cell V b (s + 1)) p))"
  using assms by (simp add: value_cell_def grid_get_wf grid_set_wf equilibrium_r_mix)

lemma value_loop_inv:
  assumes "dp_order D cs" "wf_grid V" "wf_grid r" "\<forall>c \<in> set D. value_eqn p V r c"
  shows "\<exists>V' r'. for_each cs (\<lambda>c. value_cell p (fst c) (snd c)) (V, r) = Inr (V', r') \<and>
           wf_grid V' \<and> wf_grid r' \<and>
           (\<forall>c \<in> set cs \<union> set D. value_eqn p V' r' c) \<and>
           (\<forall>b s. (s, b) \<notin> set cs \<longrightarrow> cell V' b s = cell V b s \<and> cell r' b s = cell r b s)"
  using assms
proof (induction cs arbitrary: D V r)
  case Nil
  then show ?case by simp
next
  case (Cons c cs)
  obtain s b where c: "c = (s, b)" by (cases c)
  from Cons.prems(1) c have sb: "s < 3" "b < 4"
    and new: "(s, b) \<notin> set D"
    and dep: "\<forall>c' \<in> set D. (s, b) \<noteq> (fst c', snd c' + 1) \<and> (s, b) \<noteq> (fst c' + 1, snd c')"
    and ord: "dp_order ((s, b) # D) cs"
    by auto
  define A where "A = cell V (b + 1) s"
  define B where "B = cell V b (s + 1)"
  define V1 where "V1 = grid_upd V b s (B + (A - B) * mix A B p)"
  define r1 where "r1 = grid_upd r b s (mix A B p)"
  have step: "value_cell p s b (V, r) = Inr (V1, r1)"
    using Cons.prems(2,3) sb by (simp add: value_cell_wf V1_def r1_def A_def B_def)
  have b5: "b < 5" and s4: "s < 4" using sb by simp_all
  have wf1: "wf_grid V1" "wf_grid r1"
    using Cons.prems(2,3) b5 by (simp_all add: V1_def r1_def wf_grid_upd)
  have cV1: "cell V1 b' s' = (if b' = b \<and> s' = s then B + (A - B) * mix A B p else cell V b' s')"
    for b' s'
    unfolding V1_def using Cons.prems(2) b5 s4 by (rule cell_grid_upd)
  have cr1: "cell r1 b' s' = (if b' = b \<and> s' = s then mix A B p else cell r b' s')"
    for b' s'
    unfolding r1_def using Cons.prems(3) b5 s4 by (rule cell_grid_upd)
  have here: "value_eqn p V1 r1 (s, b)"
    by (simp add: value_eqn_def cV1 cr1 A_def B_def)
  have old: "value_eqn p V1 r1 c'" if "c' \<in> set D" for c'
  proof -
    from that Cons.prems(4) have e: "value_eqn p V r c'" by blast
    from that new have n1: "\<not> (snd c' = b \<and> fst c' = s)" by (cases c') auto
    from that dep have n2: "\<not> (snd c' + 1 = b \<and> fst c' = s)" "\<not> (snd c' = b \<and> fst c' + 1 = s)"
      by auto
    from e n1 n2 show ?thesis
      by (auto simp: value_eqn_def cV1 cr1)
  qed
  have inv1: "\<forall>c' \<in> set ((s, b) # D). value_eqn p V1 r1 c'"
    using here old by auto
  from Cons.IH [OF ord wf1 inv1]
  obtain V' r' where run: "for_each cs (\<lambda>c. value_cell p (fst c) (snd c)) (V1, r1) = Inr (V', r')"
    and wf': "wf_grid V'" "wf_grid r'"
    and eq': "\<forall>c \<in> set cs \<union> set ((s, b) # D). value_eqn p V' r' c"
    and fr': "\<forall>b' s'. (s', b') \<notin> set cs \<longrightarrow> cell V' b' s' = cell V1 b' s' \<and> cell r' b' s' = cell r1 b' s'"
    by blast
  have "for_each (c # cs) (\<lambda>c. value_cell p (fst c) (snd c)) (V, r) = Inr (V', r')"
    using step run c by simp
  moreover have "\<forall>c' \<in> set (c # cs) \<union> set D. value_eqn p V' r' c'"
    using eq' c by auto
  moreover have "\<forall>b' s'. (s', b') \<notin> set (c # cs) \<longrightarrow>
      cell V' b' s' = cell V b' s' \<and> cell r' b' s' = cell r b' s'"
    using fr' c by (auto simp: cV1 cr1)
  ultimately show ?case using wf' by blast
qed

lemma reach_cell_wf:
  assumes "wf_grid F" "wf_grid r" "s < 3" "b < 4" "\<not> (b = 3 \<and> s = 2)"
  shows "reach_cell p r s b F =
     Inr (grid_upd F b s
            ((cell r b s * cell r b s) * cell F (b + 1) s +
             (1 - cell r b s * cell r b s - (1 - cell r b s) * (1 - cell r b s) * p) *
             cell F b (s + 1)))"
  using assms by (auto simp: reach_cell_def grid_get_wf grid_set_wf)

lemma reach_loop_inv:
  assumes "dp_order D cs" "wf_grid F" "wf_grid r"
    "\<forall>c \<in> set D. c \<noteq> (2, 3) \<longrightarrow> reach_eqn p r F c"
  shows "\<exists>F'. for_each cs (\<lambda>c. reach_cell p r (fst c) (snd c)) F = Inr F' \<and>
           wf_grid F' \<and>
           (\<forall>c \<in> set cs \<union> set D. c \<noteq> (2, 3) \<longrightarrow> reach_eqn p r F' c) \<and>
           (\<forall>b s. (s, b) \<notin> set cs \<or> (s, b) = (2, 3) \<longrightarrow> cell F' b s = cell F b s)"
  using assms
proof (induction cs arbitrary: D F)
  case Nil
  then show ?case by simp
next
  case (Cons c cs)
  obtain s b where c: "c = (s, b)" by (cases c)
  from Cons.prems(1) c have sb: "s < 3" "b < 4"
    and new: "(s, b) \<notin> set D"
    and dep: "\<forall>c' \<in> set D. (s, b) \<noteq> (fst c', snd c' + 1) \<and> (s, b) \<noteq> (fst c' + 1, snd c')"
    and ord: "dp_order ((s, b) # D) cs"
    by auto
  show ?case
  proof (cases "b = 3 \<and> s = 2")
    case True
    then have step: "reach_cell p r s b F = Inr F"
      by (simp add: reach_cell_def)
    have inv1: "\<forall>c' \<in> set ((s, b) # D). c' \<noteq> (2, 3) \<longrightarrow> reach_eqn p r F c'"
      using Cons.prems(4) True by auto
    from Cons.IH [OF ord Cons.prems(2,3) inv1]
    obtain F' where run: "for_each cs (\<lambda>c. reach_cell p r (fst c) (snd c)) F = Inr F'"
      and wf': "wf_grid F'"
      and eq': "\<forall>c \<in> set cs \<union> set ((s, b) # D). c \<noteq> (2, 3) \<longrightarrow> reach_eqn p r F' c"
      and fr': "\<forall>b' s'. (s', b') \<notin> set cs \<or> (s', b') = (2, 3) \<longrightarrow> cell F' b' s' = cell F b' s'"
      by blast
    have "for_each (c # cs) (\<lambda>c. reach_cell p r (fst c) (snd c)) F = Inr F'"
      using step run c by simp
    moreover have "\<forall>c' \<in> set (c # cs) \<union> set D. c' \<noteq> (2, 3) \<longrightarrow> reach_eqn p r F' c'"
      using eq' c by auto
    moreover have "\<forall>b' s'. (s', b') \<notin> set (c # cs) \<or> (s', b') = (2, 3) \<longrightarrow>
        cell F' b' s' = cell F b' s'"
      using fr' c by auto
    ultimately show ?thesis using wf' by blast
  next
    case False
    define v where "v = (cell r b s * cell r b s) * cell F (b + 1) s +
             (1 - cell r b s * cell r b s - (1 - cell r b s) * (1 - cell r b s) * p) *
             cell F b (s + 1)"
    define F1 where "F1 = grid_upd F b s v"
    have step: "reach_cell p r s b F = Inr F1"
      using Cons.prems(2,3) sb False by (simp add: reach_cell_wf F1_def v_def)
    have b5: "b < 5" and s4: "s < 4" using sb by simp_all
    have wf1: "wf_grid F1"
      using Cons.prems(2) b5 by (simp add: F1_def wf_grid_upd)
    have cF1: "cell F1 b' s' = (if b' = b \<and> s' = s then v else cell F b' s')" for b' s'
      unfolding F1_def using Cons.prems(2) b5 s4 by (rule cell_grid_upd)
    have here: "reach_eqn p r F1 (s, b)"
      by (simp add: reach_eqn_def cF1 v_def)
    have old: "reach_eqn p r F1 c'" if "c' \<in> set D" "c' \<noteq> (2, 3)" for c'
    proof -
      from that Cons.prems(4) have e: "reach_eqn p r F c'" by blast
      from that new have n1: "\<not> (snd c' = b \<and> fst c' = s)" by (cases c') auto
      from that dep have n2: "\<not> (snd c' + 1 = b \<and> fst c' = s)" "\<not> (snd c' = b \<and> fst c' + 1 = s)"
        by auto
      from e n1 n2 show ?thesis
        by (auto simp: reach_eqn_def cF1)
    qed
    have inv1: "\<forall>c' \<in> set ((s, b) # D). c' \<noteq> (2, 3) \<longrightarrow> reach_eqn p r F1 c'"
      using here old by auto
    from Cons.IH [OF ord wf1 Cons.prems(3) inv1]
    obtain F' where run: "for_each cs (\<lambda>c. reach_cell p r (fst c) (snd c)) F1 = Inr F'"
      and wf': "wf_grid F'"
      and eq': "\<forall>c \<in> set cs \<union> set ((s, b) # D). c \<noteq> (2, 3) \<longrightarrow> reach_eqn p r F' c"
      and fr': "\<forall>b' s'. (s', b') \<notin> set cs \<or> (s', b') = (2, 3) \<longrightarrow> cell F' b' s' = cell F1 b' s'"
      by blast
    have "for_each (c # cs) (\<lambda>c. reach_cell p r (fst c) (snd c)) F = Inr F'"
      using step run c by simp
    moreover have "\<forall>c' \<in> set (c # cs) \<union> set D. c' \<noteq> (2, 3) \<longrightarrow> reach_eqn p r F' c'"
      using eq' c by auto
    moreover have "\<forall>b' s'. (s', b') \<notin> set (c # cs) \<or> (s', b') = (2, 3) \<longrightarrow>
        cell F' b' s' = cell F b' s'"
      using fr' c False by (auto simp: cF1)
    ultimately show ?thesis using wf' by blast
  qed
qed

lemma set_cells: "set cells = {c. fst c < 3 \<and> snd c < 4}"
proof -
  have a: "{n::nat. n < 3} = {2, 1, 0}" and b: "{n::nat. n < 4} = {3, 2, 1, 0}"
    by auto
  have "set cells = {2, 1, 0} \<times> {3, 2, 1, 0}"
    unfolding cells_def by (simp add: Sigma_def image_def) blast
  also have "\<dots> = {n. n < 3} \<times> {n. n < 4}"
    using a b by simp
  also have "\<dots> = {c. fst c < 3 \<and> snd c < 4}"
    by auto
  finally show ?thesis .
qed

lemma wf_terminal_grid: "wf_grid terminal_grid"
  by (simp add: wf_grid_def terminal_grid_def)

lemma value_pass_spec:
  "\<exists>V r. value_pass p = Inr (V, r) \<and> wf_grid V \<and> wf_grid r \<and>
     (\<forall>s b. s < 3 \<longrightarrow> b < 4 \<longrightarrow> value_eqn p V r (s, b)) \<and>
     (\<forall>b s. \<not> (s < 3 \<and> b < 4) \<longrightarrow> cell V b s = cell terminal_grid b s \<and> cell r b s = cell zeros b s)"
proof -
  have "\<forall>c \<in> set []. value_eqn p terminal_grid zeros c" by simp
  from value_loop_inv [OF dp_order_cells wf_terminal_grid wf_zeros this]
  obtain V r where run: "for_each cells (\<lambda>c. value_cell p (fst c) (snd c)) (terminal_grid, zeros) = Inr (V, r)"
    and wf: "wf_grid V" "wf_grid r"
    and eq: "\<forall>c \<in> set cells \<union> set []. value_eqn p V r c"
    and fr: "\<forall>b s. (s, b) \<notin> set cells \<longrightarrow> cell V b s = cell terminal_grid b s \<and> cell r b s = cell zeros b s"
    by blast
  have "value_pass p = Inr (V, r)"
    unfolding value_pass_def for_each_nested terminals_eq cells_def [symmetric]
      terminal_grid_def [symmetric]
    using run by simp
  moreover have "\<forall>s b. s < 3 \<longrightarrow> b < 4 \<longrightarrow> value_eqn p V r (s, b)"
    using eq by (simp add: set_cells)
  moreover have "\<forall>b s. \<not> (s < 3 \<and> b < 4) \<longrightarrow> cell V b s = cell terminal_grid b s \<and> cell r b s = cell zeros b s"
    using fr by (simp add: set_cells)
  ultimately show ?thesis using wf by blast
qed

lemma wf_start_grid: "wf_grid start_grid"
  by (simp add: wf_grid_def start_grid_def)

lemma start_grid_eq: "grid_set zeros 3 2 1 = Inr start_grid"
  by (simp add: zeros_def grid_set_def list_get_def start_grid_def numeral_eq_Suc)

lemma reach_pass_spec:
  assumes "wf_grid r"
  shows "\<exists>F. reach_pass p r = Inr F \<and> wf_grid F \<and>
     (\<forall>s b. s < 3 \<longrightarrow> b < 4 \<longrightarrow> \<not> (b = 3 \<and> s = 2) \<longrightarrow> reach_eqn p r F (s, b)) \<and>
     (\<forall>b s. \<not> (s < 3 \<and> b < 4) \<or> (b = 3 \<and> s = 2) \<longrightarrow> cell F b s = cell start_grid b s)"
proof -
  have "\<forall>c \<in> set []. c \<noteq> (2, 3) \<longrightarrow> reach_eqn p r start_grid c" by simp
  from reach_loop_inv [OF dp_order_cells wf_start_grid assms this]
  obtain F where run: "for_each cells (\<lambda>c. reach_cell p r (fst c) (snd c)) start_grid = Inr F"
    and wf: "wf_grid F"
    and eq: "\<forall>c \<in> set cells \<union> set []. c \<noteq> (2, 3) \<longrightarrow> reach_eqn p r F c"
    and fr: "\<forall>b s. (s, b) \<notin> set cells \<or> (s, b) = (2, 3) \<longrightarrow> cell F b s = cell start_grid b s"
    by blast
  have "reach_pass p r = Inr F"
    unfolding reach_pass_def for_each_nested start_grid_eq cells_def [symmetric]
    using run by simp
  moreover have "\<forall>s b. s < 3 \<longrightarrow> b < 4 \<longrightarrow> \<not> (b = 3 \<and> s = 2) \<longrightarrow> reach_eqn p r F (s, b)"
    using eq by (auto simp: set_cells)
  moreover have "\<forall>b s. \<not> (s < 3 \<and> b < 4) \<or> (b = 3 \<and> s = 2) \<longrightarrow> cell F b s = cell start_grid b s"
    using fr by (auto simp: set_cells)
  ultimately show ?thesis using wf by blast
qed

lemma mix_bounds:
  assumes "0 \<le> B" "B \<le> A" "A \<le> 1" "0 \<le> p"
  shows "0 \<le> mix A B p \<and> mix A B p \<le> 1"
proof (cases "\<bar>(A - B) + p * (4 - B)\<bar> < 1 / 10 ^ 18")
  case True
  then show ?thesis by (simp add: mix_def)
next
  case False
  have num: "0 \<le> p * (4 - B)" using assms by simp
  have den: "p * (4 - B) \<le> (A - B) + p * (4 - B)" using assms by simp
  with num have "0 \<le> (A - B) + p * (4 - B)" by linarith
  with False have pos: "0 < (A - B) + p * (4 - B)" by (auto simp: abs_if split: if_splits)
  have "0 \<le> p * (4 - B) / ((A - B) + p * (4 - B))"
    using num pos by simp
  moreover have "p * (4 - B) / ((A - B) + p * (4 - B)) \<le> 1"
    using den pos by (simp add: divide_le_eq)
  ultimately show ?thesis using False by (simp add: mix_def)
qed

lemma value_between:
  fixes A B r :: real
  assumes "0 \<le> r" "r \<le> 1" "B \<le> A"
  shows "B \<le> B + (A - B) * r \<and> B + (A - B) * r \<le> A"
proof -
  have "0 \<le> (A - B) * r" using assms by simp
  moreover have "(A - B) * r \<le> (A - B) * 1"
    using assms by (intro mult_left_mono) simp_all
  ultimately show ?thesis by simp
qed

lemma reach_value_bounds:
  fixes r p F1 F2 :: real
  assumes r: "0 \<le> r" "r \<le> 1" and p: "0 \<le> p" "p \<le> 1"
    and F1: "0 \<le> F1" "F1 \<le> 1" and F2: "0 \<le> F2" "F2 \<le> 1"
  shows "0 \<le> (r * r) * F1 + (1 - r * r - (1 - r) * (1 - r) * p) * F2 \<and>
         (r * r) * F1 + (1 - r * r - (1 - r) * (1 - r) * p) * F2 \<le> 1"
proof -
  define c where "c = 1 - r * r - (1 - r) * (1 - r) * p"
  have rr: "0 \<le> r * r" using r by simp
  have sq: "0 \<le> (1 - r) * (1 - r)" by simp
  have "(1 - r) * (1 - r) * p \<le> (1 - r) * (1 - r) * 1"
    using sq p by (intro mult_left_mono) simp_all
  then have "1 - r * r - (1 - r) * (1 - r) \<le> c" by (simp add: c_def)
  moreover have "1 - r * r - (1 - r) * (1 - r) = 2 * (r * (1 - r))" by (simp add: algebra_simps)
  moreover have "0 \<le> r * (1 - r)" using r by simp
  ultimately have c0: "0 \<le> c" by linarith
  have "0 \<le> (1 - r) * (1 - r) * p" using sq p by simp
  then have c1: "c \<le> 1 - r * r" by (simp add: c_def)
  have a0: "0 \<le> (r * r) * F1" using rr F1 by simp
  have a1: "(r * r) * F1 \<le> (r * r) * 1" using rr F1 by (intro mult_left_mono) simp_all
  have b0: "0 \<le> c * F2" using c0 F2 by simp
  have b1: "c * F2 \<le> c * 1" using c0 F2 by (intro mult_left_mono) simp_all
  from a0 a1 b0 b1 c1 have "0 \<le> (r * r) * F1 + c * F2 \<and> (r * r) * F1 + c * F2 \<le> 1"
    by simp
  then show ?thesis by (simp add: c_def)
qed

lemma cell_terminal_grid:
  "cell terminal_grid 4 0 = 1" "cell terminal_grid 4 1 = 1" "cell terminal_grid 4 2 = 1"
  "cell terminal_grid 4 3 = 0" "b < 5 \<Longrightarrow> cell terminal_grid b 3 = 0"
proof -
  show "cell terminal_grid 4 0 = 1" "cell terminal_grid 4 1 = 1" "cell terminal_grid 4 2 = 1"
    "cell terminal_grid 4 3 = 0"
    by (simp_all add: cell_def terminal_grid_def)
  assume "b < 5"
  then have "b = 0 \<or> b = 1 \<or> b = 2 \<or> b = 3 \<or> b = 4" by arith
  then show "cell terminal_grid b 3 = 0"
    by (auto simp: cell_def terminal_grid_def)
qed

lemma cell_terminal_grid_walk: "s < 3 \<Longrightarrow> cell terminal_grid 4 s = 1"
proof -
  assume "s < 3"
  then have "s = 0 \<or> s = 1 \<or> s = 2" by arith
  then show ?thesis by (auto simp: cell_def terminal_grid_def)
qed

lemma value_grid_bounds:
  assumes p: "0 \<le> p"
    and eq: "\<forall>s b. s < 3 \<longrightarrow> b < 4 \<longrightarrow> value_eqn p V r (s, b)"
    and walk: "\<forall>s. s < 3 \<longrightarrow> cell V 4 s = 1"
    and out: "\<forall>b. b < 5 \<longrightarrow> cell V b 3 = 0"
  shows "b \<le> 4 \<Longrightarrow> s \<le> 3 \<Longrightarrow>
     0 \<le> cell V b s \<and> cell V b s \<le> 1 \<and>
     (b < 4 \<and> s < 3 \<longrightarrow>
        cell V b (s + 1) \<le> cell V b s \<and> cell V b s \<le> cell V (b + 1) s \<and>
        0 \<le> cell r b s \<and> cell r b s \<le> 1)"
proof (induction "7 - (b + s)" arbitrary: b s rule: less_induct)
  case less
  show ?case
  proof (cases "s = 3")
    case True
    with less.prems out show ?thesis by simp
  next
    case s3: False
    with less.prems have s: "s < 3" by simp
    show ?thesis
    proof (cases "b = 4")
      case True
      with s walk show ?thesis by simp
    next
      case False
      with less.prems have b: "b < 4" by simp
      define A where "A = cell V (b + 1) s"
      define B where "B = cell V b (s + 1)"
      have ihA: "0 \<le> A \<and> A \<le> 1 \<and>
          (b + 1 < 4 \<and> s < 3 \<longrightarrow> cell V (b + 1) (s + 1) \<le> A)"
        using less.hyps [of "b + 1" s] b s by (simp add: A_def)
      have ihB: "0 \<le> B \<and> B \<le> 1 \<and>
          (b < 4 \<and> s + 1 < 3 \<longrightarrow> B \<le> cell V (b + 1) (s + 1))"
        using less.hyps [of b "s + 1"] b s by (simp add: B_def)
      have BA: "B \<le> A"
      proof (cases "b + 1 = 4")
        case True
        then have "A = 1" using walk s by (simp add: A_def)
        with ihB show ?thesis by simp
      next
        case b4: False
        show ?thesis
        proof (cases "s + 1 = 3")
          case True
          then have "B = 0" using out b by (simp add: B_def)
          with ihA show ?thesis by simp
        next
          case False
          with b4 b s ihA ihB show ?thesis by simp
        qed
      qed
      from eq b s have e: "value_eqn p V r (s, b)" by blast
      then have r: "cell r b s = mix A B p" and v: "cell V b s = B + (A - B) * cell r b s"
        by (simp_all add: value_eqn_def A_def B_def)
      have rb: "0 \<le> cell r b s \<and> cell r b s \<le> 1"
        using mix_bounds [of B A p] ihA ihB BA p r by simp
      have vb: "B \<le> cell V b s \<and> cell V b s \<le> A"
        using value_between [of "cell r b s" B A] rb BA v by simp
      from rb vb ihA ihB b s show ?thesis
        by (simp add: A_def B_def)
    qed
  qed
qed

lemma cell_start_grid:
  "b < 5 \<Longrightarrow> s < 4 \<Longrightarrow> cell start_grid b s = (if b = 3 \<and> s = 2 then 1 else 0)"
proof -
  assume "b < 5" "s < 4"
  then have "(b = 0 \<or> b = 1 \<or> b = 2 \<or> b = 3 \<or> b = 4) \<and> (s = 0 \<or> s = 1 \<or> s = 2 \<or> s = 3)"
    by arith
  then show ?thesis
    by (auto simp: cell_def start_grid_def)
qed

lemma reach_grid_bounds:
  assumes p: "0 \<le> p" "p \<le> 1"
    and rb: "\<forall>b s. b < 4 \<longrightarrow> s < 3 \<longrightarrow> 0 \<le> cell r b s \<and> cell r b s \<le> 1"
    and eq: "\<forall>s b. s < 3 \<longrightarrow> b < 4 \<longrightarrow> \<not> (b = 3 \<and> s = 2) \<longrightarrow> reach_eqn p r F (s, b)"
    and fr: "\<forall>b s. \<not> (s < 3 \<and> b < 4) \<or> (b = 3 \<and> s = 2) \<longrightarrow> cell F b s = cell start_grid b s"
  shows "b \<le> 4 \<Longrightarrow> s \<le> 3 \<Longrightarrow> 0 \<le> cell F b s \<and> cell F b s \<le> 1"
proof (induction "7 - (b + s)" arbitrary: b s rule: less_induct)
  case less
  show ?case
  proof (cases "\<not> (s < 3 \<and> b < 4) \<or> (b = 3 \<and> s = 2)")
    case True
    with fr have "cell F b s = cell start_grid b s" by blast
    with less.prems show ?thesis by (simp add: cell_start_grid)
  next
    case False
    then have b: "b < 4" and s: "s < 3" and n: "\<not> (b = 3 \<and> s = 2)" by auto
    from eq b s n have e: "reach_eqn p r F (s, b)" by blast
    have i1: "0 \<le> cell F (b + 1) s \<and> cell F (b + 1) s \<le> 1"
      using less.hyps [of "b + 1" s] b s by simp
    have i2: "0 \<le> cell F b (s + 1) \<and> cell F b (s + 1) \<le> 1"
      using less.hyps [of b "s + 1"] b s by simp
    from rb b s have r: "0 \<le> cell r b s \<and> cell r b s \<le> 1" by blast
    from reach_value_bounds [of "cell r b s" p "cell F (b + 1) s" "cell F b (s + 1)"] r p i1 i2 e
    show ?thesis by (simp add: reach_eqn_def)
  qed
qed

lemma q_of_p_run: "\<exists>V r F. dp_run p V r F"
proof -
  from value_pass_spec [of p] obtain V r where
    v: "value_pass p = Inr (V, r)" and wfV: "wf_grid V" and wfr: "wf_grid r"
    and veq: "\<forall>s b. s < 3 \<longrightarrow> b < 4 \<longrightarrow> value_eqn p V r (s, b)"
    and vfr: "\<forall>b s. \<not> (s < 3 \<and> b < 4) \<longrightarrow>
        cell V b s = cell terminal_grid b s \<and> cell r b s = cell zeros b s"
    by (elim exE conjE)
  from reach_pass_spec [OF wfr, of p] obtain F where
    f: "reach_pass p r = Inr F" and wfF: "wf_grid F"
    and feq: "\<forall>s b. s < 3 \<longrightarrow> b < 4 \<longrightarrow> \<not> (b = 3 \<and> s = 2) \<longrightarrow> reach_eqn p r F (s, b)"
    and ffr: "\<forall>b s. \<not> (s < 3 \<and> b < 4) \<or> (b = 3 \<and> s = 2) \<longrightarrow> cell F b s = cell start_grid b s"
    by (elim exE conjE)
  have q: "q_of_p p = Inr (cell F 0 0)"
    using v f wfF by (simp add: q_of_p_def grid_get_wf)
  have "dp_run p V r F"
    unfolding dp_run_def
    by (intro conjI) (fact v f q wfV wfr wfF veq vfr feq ffr)+
  then show ?thesis by (intro exI)
qed

lemma dp_run_value: "dp_run p V r F \<Longrightarrow> value_pass p = Inr (V, r)"
  and dp_run_reach: "dp_run p V r F \<Longrightarrow> reach_pass p r = Inr F"
  and dp_run_q: "dp_run p V r F \<Longrightarrow> q_of_p p = Inr (cell F 0 0)"
  and dp_run_wf: "dp_run p V r F \<Longrightarrow> wf_grid V \<and> wf_grid r \<and> wf_grid F"
  by (simp_all add: dp_run_def)

lemma dp_run_value_eqn: "dp_run p V r F \<Longrightarrow> s < 3 \<Longrightarrow> b < 4 \<Longrightarrow> value_eqn p V r (s, b)"
  by (simp add: dp_run_def)

lemma dp_run_reach_eqn:
  "dp_run p V r F \<Longrightarrow> s < 3 \<Longrightarrow> b < 4 \<Longrightarrow> \<not> (b = 3 \<and> s = 2) \<Longrightarrow> reach_eqn p r F (s, b)"
  by (simp add: dp_run_def)

lemma dp_run_value_frame:
  "dp_run p V r F \<Longrightarrow> \<not> (s < 3 \<and> b < 4) \<Longrightarrow>
   cell V b s = cell terminal_grid b s \<and> cell r b s = cell zeros b s"
  unfolding dp_run_def by (elim conjE) blast

lemma dp_run_reach_frame:
  "dp_run p V r F \<Longrightarrow> \<not> (s < 3 \<and> b < 4) \<or> (b = 3 \<and> s = 2) \<Longrightarrow>
   cell F b s = cell start_grid b s"
  unfolding dp_run_def by (elim conjE) blast

lemma q_of_p_returns: "\<exists>q. q_of_p p = Inr q"
  using q_of_p_run [of p] dp_run_q by blast

lemma dp_run_r_bounds:
  assumes run: "dp_run p V r F" and p: "0 \<le> p" and b: "b < 4" and s: "s < 3"
  shows "0 \<le> cell r b s \<and> cell r b s \<le> 1"
proof -
  have eq: "\<forall>s b. s < 3 \<longrightarrow> b < 4 \<longrightarrow> value_eqn p V r (s, b)"
    using dp_run_value_eqn [OF run] by blast
  have walk: "\<forall>s. s < 3 \<longrightarrow> cell V 4 s = 1"
    using dp_run_value_frame [OF run, of _ 4] by (simp add: cell_terminal_grid_walk)
  have out: "\<forall>b. b < 5 \<longrightarrow> cell V b 3 = 0"
    using dp_run_value_frame [OF run, of 3] by (simp add: cell_terminal_grid)
  show ?thesis
    using value_grid_bounds [OF p eq walk out, of b s] b s by simp
qed

lemma dp_run_F_bounds:
  assumes run: "dp_run p V r F" and p: "0 \<le> p" "p \<le> 1" and b: "b \<le> 4" and s: "s \<le> 3"
  shows "0 \<le> cell F b s \<and> cell F b s \<le> 1"
proof -
  have rb: "\<forall>b s. b < 4 \<longrightarrow> s < 3 \<longrightarrow> 0 \<le> cell r b s \<and> cell r b s \<le> 1"
    using dp_run_r_bounds [OF run p(1)] by blast
  have feq: "\<forall>s b. s < 3 \<longrightarrow> b < 4 \<longrightarrow> \<not> (b = 3 \<and> s = 2) \<longrightarrow> reach_eqn p r F (s, b)"
    using dp_run_reach_eqn [OF run] by blast
  have ffr: "\<forall>b s. \<not> (s < 3 \<and> b < 4) \<or> (b = 3 \<and> s = 2) \<longrightarrow> cell F b s = cell start_grid b s"
    using dp_run_reach_frame [OF run] by blast
  show ?thesis
    by (rule reach_grid_bounds [OF p rb feq ffr b s])
qed

lemma q_of_p_unit:
  assumes "0 \<le> p" "p \<le> 1"
  shows "\<exists>q. q_of_p p = Inr q \<and> 0 \<le> q \<and> q \<le> 1"
proof -
  from q_of_p_run [of p] obtain V r F where run: "dp_run p V r F" by blast
  from dp_run_F_bounds [OF run assms, of 0 0] dp_run_q [OF run] show ?thesis by simp
qed

lemma mix_zero: "mix A B 0 = 0"
  by (simp add: mix_def)

lemma q_of_p_zero: "q_of_p 0 = Inr 0"
proof -
  from q_of_p_run [of 0] obtain V r F where run: "dp_run 0 V r F" by blast
  have r0: "cell r 0 s = 0" if "s < 3" for s
    using dp_run_value_eqn [OF run that, of 0] by (simp add: value_eqn_def mix_zero)
  have st: "cell F 0 s = cell F 0 (s + 1)" if "s < 3" for s
    using dp_run_reach_eqn [OF run that, of 0] r0 [OF that] by (simp add: reach_eqn_def)
  have "cell F 0 0 = cell F 0 3"
    using st [of 0] st [of 1] st [of 2] by (simp add: numeral_eq_Suc)
  also have "\<dots> = cell start_grid 0 3" using dp_run_reach_frame [OF run, of 3 0] by simp
  also have "\<dots> = 0" by (simp add: cell_start_grid)
  finally show ?thesis using dp_run_q [OF run] by simp
qed

subsection \<open>The golden-section loop and the coarse scan\<close>

declare golden_loop.simps [simp del]














lemma solve_fast_unfold:
  "coarse_scan q_of_p 2049 = Inr (bp, bq) \<Longrightarrow>
   solve_fast =
     golden_max q_of_p (max 0 (bp - 5 / 100)) (min 1 (bp + 5 / 100)) (1 / 10 ^ 14) 250"
  by (simp add: solve_fast_def Let_def)

lemma scan_loop:
  assumes "\<forall>i \<in> set js. \<exists>v. f (real i * step) = Inr v"
  shows "\<exists>bp bq. for_each js (scan_step f step) (bp0, bq0) = Inr (bp, bq) \<and> bq0 \<le> bq \<and>
      (\<forall>i \<in> set js. \<exists>v. f (real i * step) = Inr v \<and> v \<le> bq) \<and>
      ((bp, bq) = (bp0, bq0) \<or> (\<exists>i \<in> set js. bp = real i * step \<and> f bp = Inr bq))"
  using assms
proof (induction js arbitrary: bp0 bq0)
  case Nil
  then show ?case by simp
next
  case (Cons i js)
  from Cons.prems obtain v where v: "f (real i * step) = Inr v" by auto
  from Cons.prems have rest: "\<forall>i \<in> set js. \<exists>v. f (real i * step) = Inr v" by simp
  show ?case
  proof (cases "v > bq0")
    case True
    then have st: "scan_step f step i (bp0, bq0) = Inr (real i * step, v)"
      by (simp add: scan_step_def Let_def v)
    from Cons.IH [OF rest, of "real i * step" v] obtain bp bq where
      run: "for_each js (scan_step f step) (real i * step, v) = Inr (bp, bq)"
      and ge: "v \<le> bq"
      and all: "\<forall>i \<in> set js. \<exists>v. f (real i * step) = Inr v \<and> v \<le> bq"
      and arg: "(bp, bq) = (real i * step, v) \<or>
        (\<exists>i \<in> set js. bp = real i * step \<and> f bp = Inr bq)"
      by (elim exE conjE)
    have "for_each (i # js) (scan_step f step) (bp0, bq0) = Inr (bp, bq)"
      using st run by simp
    moreover have "bq0 \<le> bq" using True ge by simp
    moreover have "\<forall>i \<in> set (i # js). \<exists>v. f (real i * step) = Inr v \<and> v \<le> bq"
      using all v ge by simp
    moreover have "\<exists>i \<in> set (i # js). bp = real i * step \<and> f bp = Inr bq"
      using arg v by auto
    ultimately show ?thesis by blast
  next
    case False
    then have st: "scan_step f step i (bp0, bq0) = Inr (bp0, bq0)"
      by (simp add: scan_step_def Let_def v)
    from Cons.IH [OF rest, of bp0 bq0] obtain bp bq where
      run: "for_each js (scan_step f step) (bp0, bq0) = Inr (bp, bq)"
      and ge: "bq0 \<le> bq"
      and all: "\<forall>i \<in> set js. \<exists>v. f (real i * step) = Inr v \<and> v \<le> bq"
      and arg: "(bp, bq) = (bp0, bq0) \<or>
        (\<exists>i \<in> set js. bp = real i * step \<and> f bp = Inr bq)"
      by (elim exE conjE)
    have "for_each (i # js) (scan_step f step) (bp0, bq0) = Inr (bp, bq)"
      using st run by simp
    moreover have "\<forall>i \<in> set (i # js). \<exists>v. f (real i * step) = Inr v \<and> v \<le> bq"
      using all v ge False by simp
    moreover have "(bp, bq) = (bp0, bq0) \<or>
        (\<exists>i \<in> set (i # js). bp = real i * step \<and> f bp = Inr bq)"
      using arg by auto
    ultimately show ?thesis using ge by blast
  qed
qed

lemma coarse_scan_spec:
  assumes n: "2 \<le> n" and total: "\<forall>x. \<exists>y. f x = Inr y"
  shows "\<exists>bp bq. coarse_scan f n = Inr (bp, bq) \<and>
      (\<forall>i. 1 \<le> i \<and> i < n \<longrightarrow> (\<exists>v. f (real i / (real n - 1)) = Inr v \<and> v \<le> bq)) \<and>
      ((bp, bq) = (0, - 1) \<or>
       (\<exists>i. 1 \<le> i \<and> i < n \<and> bp = real i / (real n - 1) \<and> f bp = Inr bq))"
proof -
  define step :: real where "step = 1 / (real n - 1)"
  have ne: "real n - 1 \<noteq> 0" using n by simp
  then have d: "py_truediv 1 (real n - 1) = Inr step"
    by (simp add: py_truediv_def step_def)
  from total obtain q0 where q0: "f 0 = Inr q0" by blast
  have cs: "coarse_scan f n = for_each [1 ..< n] (scan_step f step) (0, - 1)"
    by (simp add: coarse_scan_def d q0)
  have "\<forall>i \<in> set [1 ..< n]. \<exists>v. f (real i * step) = Inr v"
    using total by blast
  from scan_loop [OF this, of 0 "- 1"] obtain bp bq where
    run: "for_each [1 ..< n] (scan_step f step) (0, - 1) = Inr (bp, bq)"
    and all: "\<forall>i \<in> set [1 ..< n]. \<exists>v. f (real i * step) = Inr v \<and> v \<le> bq"
    and arg: "(bp, bq) = (0, - 1) \<or>
        (\<exists>i \<in> set [1 ..< n]. bp = real i * step \<and> f bp = Inr bq)"
    by (elim exE conjE)
  have sd: "real i * step = real i / (real n - 1)" for i
    by (simp add: step_def)
  have "coarse_scan f n = Inr (bp, bq)" using cs run by simp
  moreover have "\<forall>i. 1 \<le> i \<and> i < n \<longrightarrow> (\<exists>v. f (real i / (real n - 1)) = Inr v \<and> v \<le> bq)"
    using all by (simp add: sd)
  moreover have "(bp, bq) = (0, - 1) \<or>
       (\<exists>i. 1 \<le> i \<and> i < n \<and> bp = real i / (real n - 1) \<and> f bp = Inr bq)"
    using arg by (auto simp: sd)
  ultimately show ?thesis by blast
qed

section \<open>The claims\<close>

subsection \<open>The equilibrium mixing function\<close>

text \<open>
  Claim C3. For all scalars \<open>A\<close>, \<open>B\<close>, \<open>p\<close>, with \<open>denom = (A - B) + p * (4 - B)\<close>:
  \<open>_equilibrium_r\<close> returns \<open>p * (4 - B) / denom\<close> when \<open>|denom| \<ge> 1e-18\<close> and returns 0
  when \<open>|denom| < 1e-18\<close>. It is a function of its three arguments: it reads and writes
  nothing else.
\<close>

theorem equilibrium_r_cases:
  "(1 / 10 ^ 18 \<le> \<bar>(A - B) + p * (4 - B)\<bar> \<longrightarrow>
      equilibrium_r A B p = Inr (p * (4 - B) / ((A - B) + p * (4 - B)))) \<and>
   (\<bar>(A - B) + p * (4 - B)\<bar> < 1 / 10 ^ 18 \<longrightarrow> equilibrium_r A B p = Inr 0)"
  by (auto simp: equilibrium_r_def py_truediv_def Let_def)

text \<open>The two cases at \<open>A = 1, B = 0, p = 1\<close> and at \<open>A = B = p = 0\<close>.\<close>

theorem equilibrium_r_cases_witness:
  "(1 / 10 ^ 18 \<le> \<bar>((1::real) - 0) + 1 * (4 - 0)\<bar> \<and> equilibrium_r 1 0 1 = Inr (4 / 5)) \<and>
   (\<bar>((0::real) - 0) + 0 * (4 - 0)\<bar> < 1 / 10 ^ 18 \<and> equilibrium_r 0 0 0 = Inr 0)"
  using equilibrium_r_cases [of 1 0 1] equilibrium_r_cases [of 0 0 0] by simp

subsection \<open>The evaluator returns\<close>

text \<open>
  Claim C10. The evaluator is total: for every real \<open>p\<close>, inside \<open>[0, 1]\<close> or not,
  \<open>_q_of_p(p)\<close> returns a number. The division of \<open>_equilibrium_r\<close>, the only one of
  the evaluator, never raises ZeroDivisionError, whatever its arguments: a zero denominator
  is caught by the guard. No access to \<open>V\<close>, \<open>r\<close> or \<open>F\<close> raises IndexError: an error of
  either kind would be the result \<open>Inl\<close> of \<open>q_of_p\<close>.
\<close>

theorem q_of_p_total:
  "(\<exists>rr. equilibrium_r A B p = Inr rr) \<and> (\<exists>q. q_of_p p = Inr q)"
  using equilibrium_r_mix [of A B p] q_of_p_returns [of p] by simp

subsection \<open>The full-count pass\<close>

text \<open>
  Claim C1. For every \<open>p\<close> the full-count pass, run on the grid \<open>r\<close> of the value pass,
  ends with \<open>F[3][2] = 1\<close> and, for every other state \<open>(b, s)\<close> with \<open>b\<close> in 0..3 and
  \<open>s\<close> in 0..2, with
  \<open>F[b][s] = rr^2 * F[b+1][s] + (1 - rr^2 - (1 - rr)^2 * p) * F[b][s+1]\<close> where
  \<open>rr = r[b][s]\<close>; the evaluator returns \<open>F[0][0]\<close>. The order of the loops (\<open>s\<close> from 2
  down to 0, inside it \<open>b\<close> from 3 down to 0) is the one of \<open>reach_pass\<close>; because of it
  the equations hold between the entries of the final grid.
\<close>

theorem reach_pass_recurrence:
  "\<exists>V r F. value_pass p = Inr (V, r) \<and> reach_pass p r = Inr F \<and> wf_grid r \<and> wf_grid F \<and>
     q_of_p p = Inr (cell F 0 0) \<and> cell F 3 2 = 1 \<and>
     (\<forall>b s. b < 4 \<longrightarrow> s < 3 \<longrightarrow> \<not> (b = 3 \<and> s = 2) \<longrightarrow>
        cell F b s =
          (cell r b s)\<^sup>2 * cell F (b + 1) s +
          (1 - (cell r b s)\<^sup>2 - (1 - cell r b s)\<^sup>2 * p) * cell F b (s + 1))"
proof -
  from q_of_p_run [of p] obtain V r F where run: "dp_run p V r F" by blast
  have "cell F 3 2 = cell start_grid 3 2"
    using dp_run_reach_frame [OF run, of 2 3] by simp
  then have t: "cell F 3 2 = 1" by (simp add: cell_start_grid)
  have e: "cell F b s =
          (cell r b s)\<^sup>2 * cell F (b + 1) s +
          (1 - (cell r b s)\<^sup>2 - (1 - cell r b s)\<^sup>2 * p) * cell F b (s + 1)"
    if "b < 4" "s < 3" "\<not> (b = 3 \<and> s = 2)" for b s
    using dp_run_reach_eqn [OF run that(2) that(1) that(3)]
    by (simp add: reach_eqn_def power2_eq_square)
  show ?thesis
    using dp_run_value [OF run] dp_run_reach [OF run] dp_run_wf [OF run] dp_run_q [OF run] t e
    by - (rule exI [of _ V], rule exI [of _ r], rule exI [of _ F], simp)
qed

text \<open>The recurrence at the state \<open>(0, 0)\<close>, whose value the evaluator returns, for \<open>p = 1/2\<close>.\<close>

theorem reach_pass_recurrence_witness:
  "\<exists>V r F. value_pass (1 / 2) = Inr (V, r) \<and> reach_pass (1 / 2) r = Inr F \<and>
     q_of_p (1 / 2) = Inr (cell F 0 0) \<and> cell F 3 2 = 1 \<and>
     (0::nat) < 4 \<and> (0::nat) < 3 \<and> \<not> ((0::nat) = 3 \<and> (0::nat) = 2) \<and>
     cell F 0 0 =
       (cell r 0 0)\<^sup>2 * cell F (0 + 1) 0 +
       (1 - (cell r 0 0)\<^sup>2 - (1 - cell r 0 0)\<^sup>2 * (1 / 2)) * cell F 0 (0 + 1)"
proof -
  from reach_pass_recurrence [of "1 / 2"] obtain V r F where
    a: "value_pass (1 / 2) = Inr (V, r)" "reach_pass (1 / 2) r = Inr F"
      "q_of_p (1 / 2) = Inr (cell F 0 0)" "cell F 3 2 = 1"
    and e: "\<forall>b s. b < 4 \<longrightarrow> s < 3 \<longrightarrow> \<not> (b = 3 \<and> s = 2) \<longrightarrow>
        cell F b s =
          (cell r b s)\<^sup>2 * cell F (b + 1) s +
          (1 - (cell r b s)\<^sup>2 - (1 - cell r b s)\<^sup>2 * (1 / 2)) * cell F b (s + 1)"
    by (elim exE conjE)
  from e [rule_format, of 0 0] have "cell F 0 0 =
       (cell r 0 0)\<^sup>2 * cell F (0 + 1) 0 +
       (1 - (cell r 0 0)\<^sup>2 - (1 - cell r 0 0)\<^sup>2 * (1 / 2)) * cell F 0 (0 + 1)"
    by simp
  with a show ?thesis by - (rule exI [of _ V], rule exI [of _ r], rule exI [of _ F], simp)
qed

subsection \<open>The value pass\<close>

text \<open>
  Claim C2. For every \<open>p\<close>, the value pass first stores 1.0 into \<open>V[4][s]\<close> for every
  \<open>s\<close> in 0..3 and then 0.0 into \<open>V[b][3]\<close> for every \<open>b\<close> in 0..4: after the first loop
  the row \<open>b = 4\<close> is 1 throughout, after the second the column \<open>s = 3\<close> is 0 throughout.
  The second loop has the last word on the corner \<open>V[4][3]\<close>, which nothing reads later;
  the entries \<open>V[4][s]\<close> for \<open>s\<close> in 0..2 and \<open>V[b][3]\<close> that the induction reads keep
  these values to the end. Then for every non-terminal state \<open>(b, s)\<close>, with
  \<open>A = V[b+1][s]\<close> and \<open>B = V[b][s+1]\<close>, \<open>r[b][s]\<close> is what \<open>_equilibrium_r(A, B, p)\<close>
  returns and \<open>V[b][s] = B + (A - B) * r[b][s]\<close>. The order of the loops (\<open>s\<close> from 2
  down to 0, inside it \<open>b\<close> from 3 down to 0) is the one of \<open>value_pass\<close>; because of it
  the equations hold between the entries of the final grids.
\<close>

theorem value_pass_recurrence:
  "\<exists>W T V r.
     walk_terminals = Inr W \<and> (\<forall>s. s < 4 \<longrightarrow> cell W 4 s = 1) \<and>
     for_each [0 ..< 5] (\<lambda>b V. grid_set V b 3 0) W = Inr T \<and> terminals = Inr T \<and>
     (\<forall>b. b < 5 \<longrightarrow> cell T b 3 = 0) \<and> (\<forall>s. s < 3 \<longrightarrow> cell T 4 s = 1) \<and>
     value_pass p = Inr (V, r) \<and> wf_grid W \<and> wf_grid T \<and> wf_grid V \<and> wf_grid r \<and>
     (\<forall>s. s < 3 \<longrightarrow> cell V 4 s = 1) \<and> (\<forall>b. b < 5 \<longrightarrow> cell V b 3 = 0) \<and>
     (\<forall>b s. b < 4 \<longrightarrow> s < 3 \<longrightarrow>
        equilibrium_r (cell V (b + 1) s) (cell V b (s + 1)) p = Inr (cell r b s) \<and>
        cell V b s = cell V b (s + 1) + (cell V (b + 1) s - cell V b (s + 1)) * cell r b s)"
proof -
  from q_of_p_run [of p] obtain V r F where run: "dp_run p V r F" by blast
  have W: "walk_terminals = Inr walk_grid"
    by (rule walk_terminals_eq)
  have WT: "for_each [0 ..< 5] (\<lambda>b V. grid_set V b 3 0) walk_grid = Inr terminal_grid"
    by (simp add: strikeout_loop_eq terminal_grid_def)
  have T: "terminals = Inr terminal_grid"
    by (simp add: terminals_eq terminal_grid_def)
  have w1: "cell walk_grid 4 s = 1" if "s < 4" for s
    using that by (rule cell_walk_grid)
  have t0: "cell terminal_grid b 3 = 0" if "b < 5" for b
    using that by (simp add: cell_terminal_grid)
  have t1: "cell terminal_grid 4 s = 1" if "s < 3" for s
    using that by (rule cell_terminal_grid_walk)
  have walk: "cell V 4 s = 1" if "s < 3" for s
    using dp_run_value_frame [OF run, of s 4] that by (simp add: cell_terminal_grid_walk)
  have out: "cell V b 3 = 0" if "b < 5" for b
    using dp_run_value_frame [OF run, of 3 b] that by (simp add: cell_terminal_grid)
  have e: "equilibrium_r (cell V (b + 1) s) (cell V b (s + 1)) p = Inr (cell r b s) \<and>
        cell V b s = cell V b (s + 1) + (cell V (b + 1) s - cell V b (s + 1)) * cell r b s"
    if "b < 4" "s < 3" for b s
    using dp_run_value_eqn [OF run that(2) that(1)]
    by (simp add: value_eqn_def equilibrium_r_mix)
  show ?thesis
    using W WT T w1 t0 t1 dp_run_value [OF run] dp_run_wf [OF run] wf_walk_grid
      wf_terminal_grid walk out e
    by - (rule exI [of _ walk_grid], rule exI [of _ terminal_grid], rule exI [of _ V],
        rule exI [of _ r], simp)
qed

text \<open>
  The row \<open>b = 4\<close> at \<open>s = 3\<close> and \<open>s = 2\<close> after each of the two loops and at the end,
  and the state \<open>(3, 2)\<close> for \<open>p = 1/2\<close>, where \<open>A = 1\<close>, \<open>B = 0\<close> and \<open>r = V = 2/3\<close>.
\<close>

theorem value_pass_recurrence_witness:
  "\<exists>W T V r. walk_terminals = Inr W \<and> terminals = Inr T \<and> value_pass (1 / 2) = Inr (V, r) \<and>
     (3::nat) < 4 \<and> cell W 4 3 = 1 \<and> (4::nat) < 5 \<and> cell T 4 3 = 0 \<and>
     (2::nat) < 3 \<and> cell T 4 2 = 1 \<and> cell V 4 2 = 1 \<and> cell V 4 3 = 0 \<and>
     equilibrium_r (cell V (3 + 1) 2) (cell V 3 (2 + 1)) (1 / 2) = Inr (cell r 3 2) \<and>
     cell V 3 2 = cell V 3 (2 + 1) + (cell V (3 + 1) 2 - cell V 3 (2 + 1)) * cell r 3 2 \<and>
     cell r 3 2 = 2 / 3 \<and> cell V 3 2 = 2 / 3"
proof -
  from value_pass_recurrence [of "1 / 2"] obtain W T V r where
    a: "walk_terminals = Inr W" "terminals = Inr T" "value_pass (1 / 2) = Inr (V, r)"
    and ww: "\<forall>s. s < 4 \<longrightarrow> cell W 4 s = 1"
    and tz: "\<forall>b. b < 5 \<longrightarrow> cell T b 3 = 0"
    and tw: "\<forall>s. s < 3 \<longrightarrow> cell T 4 s = 1"
    and w: "\<forall>s. s < 3 \<longrightarrow> cell V 4 s = 1"
    and z: "\<forall>b. b < 5 \<longrightarrow> cell V b 3 = 0"
    and e: "\<forall>b s. b < 4 \<longrightarrow> s < 3 \<longrightarrow>
        equilibrium_r (cell V (b + 1) s) (cell V b (s + 1)) (1 / 2) = Inr (cell r b s) \<and>
        cell V b s = cell V b (s + 1) + (cell V (b + 1) s - cell V b (s + 1)) * cell r b s"
    by (elim exE conjE)
  from ww [rule_format, of 3] have w3: "cell W 4 3 = 1" by simp
  from tz [rule_format, of 4] have t43: "cell T 4 3 = 0" by simp
  from tw [rule_format, of 2] have t42: "cell T 4 2 = 1" by simp
  from w [rule_format, of 2] have w2: "cell V 4 2 = 1" by simp
  from z [rule_format, of 4] have z4: "cell V 4 3 = 0" by simp
  from z [rule_format, of 3] have z3: "cell V 3 3 = 0" by simp
  from e [rule_format, of 3 2] have e32:
    "equilibrium_r (cell V (3 + 1) 2) (cell V 3 (2 + 1)) (1 / 2) = Inr (cell r 3 2)"
    "cell V 3 2 = cell V 3 (2 + 1) + (cell V (3 + 1) 2 - cell V 3 (2 + 1)) * cell r 3 2"
    by simp_all
  have "equilibrium_r 1 0 (1 / 2) = Inr (2 / 3)"
    by (simp add: equilibrium_r_def py_truediv_def)
  with e32 w2 z3 have v: "cell r 3 2 = 2 / 3" "cell V 3 2 = 2 / 3" by simp_all
  from a w3 t43 t42 w2 z4 z3 e32 v show ?thesis
    by - (rule exI [of _ W], rule exI [of _ T], rule exI [of _ V], rule exI [of _ r], simp)
qed

text \<open>
  Claim C6. For every \<open>p\<close> in \<open>[0, 1]\<close> and every non-terminal state \<open>(b, s)\<close>, the
  mixing probability \<open>r[b][s]\<close> that the value pass computes is a probability:
  \<open>0 \<le> r[b][s] \<le> 1\<close>. This holds for the degenerate states as well, where
  \<open>_equilibrium_r\<close> returns 0.
\<close>

theorem mixing_probability_bounds:
  assumes "0 \<le> p" "p \<le> 1"
  shows "\<exists>V r. value_pass p = Inr (V, r) \<and> wf_grid V \<and> wf_grid r \<and>
     (\<forall>b s. b < 4 \<longrightarrow> s < 3 \<longrightarrow>
        equilibrium_r (cell V (b + 1) s) (cell V b (s + 1)) p = Inr (cell r b s) \<and>
        0 \<le> cell r b s \<and> cell r b s \<le> 1)"
proof -
  from q_of_p_run [of p] obtain V r F where run: "dp_run p V r F" by blast
  have e: "equilibrium_r (cell V (b + 1) s) (cell V b (s + 1)) p = Inr (cell r b s) \<and>
        0 \<le> cell r b s \<and> cell r b s \<le> 1"
    if "b < 4" "s < 3" for b s
    using dp_run_value_eqn [OF run that(2) that(1)] dp_run_r_bounds [OF run assms(1) that]
    by (simp add: value_eqn_def equilibrium_r_mix)
  show ?thesis
    using dp_run_value [OF run] dp_run_wf [OF run] e
    by - (rule exI [of _ V], rule exI [of _ r], simp)
qed

text \<open>The bounds at the state \<open>(0, 0)\<close> for \<open>p = 1/2\<close>.\<close>

theorem mixing_probability_bounds_witness:
  "(0::real) \<le> 1 / 2 \<and> (1 / 2 :: real) \<le> 1 \<and>
   (\<exists>V r. value_pass (1 / 2) = Inr (V, r) \<and> (0::nat) < 4 \<and> (0::nat) < 3 \<and>
      equilibrium_r (cell V (0 + 1) 0) (cell V 0 (0 + 1)) (1 / 2) = Inr (cell r 0 0) \<and>
      0 \<le> cell r 0 0 \<and> cell r 0 0 \<le> 1)"
proof -
  have h: "(0::real) \<le> 1 / 2" "(1 / 2 :: real) \<le> 1" by simp_all
  from mixing_probability_bounds [OF h] obtain V r where
    a: "value_pass (1 / 2) = Inr (V, r)"
    and e: "\<forall>b s. b < 4 \<longrightarrow> s < 3 \<longrightarrow>
        equilibrium_r (cell V (b + 1) s) (cell V b (s + 1)) (1 / 2) = Inr (cell r b s) \<and>
        0 \<le> cell r b s \<and> cell r b s \<le> 1"
    by (elim exE conjE)
  from e [rule_format, of 0 0] a
  have "\<exists>V r. value_pass (1 / 2) = Inr (V, r) \<and> (0::nat) < 4 \<and> (0::nat) < 3 \<and>
      equilibrium_r (cell V (0 + 1) 0) (cell V 0 (0 + 1)) (1 / 2) = Inr (cell r 0 0) \<and>
      0 \<le> cell r 0 0 \<and> cell r 0 0 \<le> 1"
    by - (rule exI [of _ V], rule exI [of _ r], simp)
  with h show ?thesis by simp
qed

subsection \<open>The full-count grid is a grid of probabilities\<close>

text \<open>
  Claim C7. For every \<open>p\<close> in \<open>[0, 1]\<close>, after the full-count pass every entry of \<open>F\<close>
  is in \<open>[0, 1]\<close>, \<open>F[3][2] = 1\<close>, \<open>F[4][s] = 0\<close> for every \<open>s\<close> in 0..3 and
  \<open>F[b][3] = 0\<close> for every \<open>b\<close> in 0..4.
\<close>

theorem reach_grid_unit_interval:
  assumes "0 \<le> p" "p \<le> 1"
  shows "\<exists>V r F. value_pass p = Inr (V, r) \<and> reach_pass p r = Inr F \<and> wf_grid F \<and>
     (\<forall>b s. b < 5 \<longrightarrow> s < 4 \<longrightarrow> 0 \<le> cell F b s \<and> cell F b s \<le> 1) \<and>
     cell F 3 2 = 1 \<and>
     (\<forall>s. s < 4 \<longrightarrow> cell F 4 s = 0) \<and>
     (\<forall>b. b < 5 \<longrightarrow> cell F b 3 = 0)"
proof -
  from q_of_p_run [of p] obtain V r F where run: "dp_run p V r F" by blast
  have bd: "0 \<le> cell F b s \<and> cell F b s \<le> 1" if "b < 5" "s < 4" for b s
    using dp_run_F_bounds [OF run assms, of b s] that by simp
  have "cell F 3 2 = cell start_grid 3 2"
    using dp_run_reach_frame [OF run, of 2 3] by simp
  then have t: "cell F 3 2 = 1" by (simp add: cell_start_grid)
  have walk: "cell F 4 s = 0" if "s < 4" for s
    using dp_run_reach_frame [OF run, of s 4] that by (simp add: cell_start_grid)
  have out: "cell F b 3 = 0" if "b < 5" for b
    using dp_run_reach_frame [OF run, of 3 b] that by (simp add: cell_start_grid)
  show ?thesis
    using dp_run_value [OF run] dp_run_reach [OF run] dp_run_wf [OF run] bd t walk out
    by - (rule exI [of _ V], rule exI [of _ r], rule exI [of _ F], simp)
qed

text \<open>The entries \<open>(0, 0)\<close>, \<open>(3, 2)\<close>, \<open>(4, 0)\<close> and \<open>(0, 3)\<close> for \<open>p = 1/2\<close>.\<close>

theorem reach_grid_unit_interval_witness:
  "(0::real) \<le> 1 / 2 \<and> (1 / 2 :: real) \<le> 1 \<and>
   (\<exists>V r F. value_pass (1 / 2) = Inr (V, r) \<and> reach_pass (1 / 2) r = Inr F \<and>
      (0::nat) < 5 \<and> (0::nat) < 4 \<and> 0 \<le> cell F 0 0 \<and> cell F 0 0 \<le> 1 \<and>
      cell F 3 2 = 1 \<and> cell F 4 0 = 0 \<and> cell F 0 3 = 0)"
proof -
  have h: "(0::real) \<le> 1 / 2" "(1 / 2 :: real) \<le> 1" by simp_all
  from reach_grid_unit_interval [OF h] obtain V r F where
    a: "value_pass (1 / 2) = Inr (V, r)" "reach_pass (1 / 2) r = Inr F" "cell F 3 2 = 1"
    and bd: "\<forall>b s. b < 5 \<longrightarrow> s < 4 \<longrightarrow> 0 \<le> cell F b s \<and> cell F b s \<le> 1"
    and w: "\<forall>s. s < 4 \<longrightarrow> cell F 4 s = 0"
    and z: "\<forall>b. b < 5 \<longrightarrow> cell F b 3 = 0"
    by (elim exE conjE)
  from bd [rule_format, of 0 0] w [rule_format, of 0] z [rule_format, of 0] a
  have "\<exists>V r F. value_pass (1 / 2) = Inr (V, r) \<and> reach_pass (1 / 2) r = Inr F \<and>
      (0::nat) < 5 \<and> (0::nat) < 4 \<and> 0 \<le> cell F 0 0 \<and> cell F 0 0 \<le> 1 \<and>
      cell F 3 2 = 1 \<and> cell F 4 0 = 0 \<and> cell F 0 3 = 0"
    by - (rule exI [of _ V], rule exI [of _ r], rule exI [of _ F], simp)
  with h show ?thesis by simp
qed

subsection \<open>The maximizer\<close>

text \<open>
  Claim C4. The coarse scan of \<open>solve_fast\<close> evaluates \<open>q_of_p\<close> at the 2049 points
  \<open>i/2048\<close>, \<open>i = 0..2048\<close>, and the pair \<open>(best_p, best_q)\<close> it hands to the
  golden-section search is one of these samples with its value, and no sample, the one at
  \<open>p = 0\<close> included, has a larger value. The value at \<open>p = 0\<close> is only stored in
  \<open>q_prev\<close> and never compared; it is 0 and no value of \<open>q_of_p\<close> on \<open>[0, 1]\<close> is
  negative, which is why the maximum over \<open>i = 1..2048\<close> is the maximum over all samples.
\<close>

theorem coarse_scan_maximum:
  "\<exists>bp bq. coarse_scan q_of_p 2049 = Inr (bp, bq) \<and>
     (\<exists>i. i \<le> 2048 \<and> bp = real i / 2048) \<and> q_of_p bp = Inr bq \<and>
     (\<forall>j. j \<le> 2048 \<longrightarrow> (\<exists>v. q_of_p (real j / 2048) = Inr v \<and> v \<le> bq)) \<and>
     solve_fast =
       golden_max q_of_p (max 0 (bp - 5 / 100)) (min 1 (bp + 5 / 100)) (1 / 10 ^ 14) 250"
proof -
  have total: "\<forall>x. \<exists>y. q_of_p x = Inr y"
    using q_of_p_returns by blast
  have n: "(2::nat) \<le> 2049" by simp
  have r: "real (2049::nat) - 1 = 2048" by simp
  from coarse_scan_spec [OF n total] obtain bp bq where
    cs: "coarse_scan q_of_p 2049 = Inr (bp, bq)"
    and all: "\<forall>i. 1 \<le> i \<and> i < 2049 \<longrightarrow> (\<exists>v. q_of_p (real i / 2048) = Inr v \<and> v \<le> bq)"
    and arg: "(bp, bq) = (0, - 1) \<or>
       (\<exists>i. 1 \<le> i \<and> i < 2049 \<and> bp = real i / 2048 \<and> q_of_p bp = Inr bq)"
    unfolding r by (elim exE conjE)
  from all [rule_format, of 1] obtain v1 where
    v1: "q_of_p (real 1 / 2048) = Inr v1" and le1: "v1 \<le> bq"
    by auto
  have "(0::real) \<le> real 1 / 2048" "real 1 / 2048 \<le> (1::real)" by simp_all
  from q_of_p_unit [OF this] v1 have "0 \<le> v1" by simp
  with le1 have bq0: "0 \<le> bq" by simp
  with arg obtain i where i: "1 \<le> i" "i < 2049" "bp = real i / 2048" "q_of_p bp = Inr bq"
    by auto
  have sample: "\<exists>i. i \<le> 2048 \<and> bp = real i / 2048"
    using i by - (rule exI [of _ i], simp)
  have dom: "\<exists>v. q_of_p (real j / 2048) = Inr v \<and> v \<le> bq" if "j \<le> 2048" for j
  proof (cases "j = 0")
    case True
    with q_of_p_zero bq0 show ?thesis by simp
  next
    case False
    with that all show ?thesis by simp
  qed
  from cs sample i(4) dom solve_fast_unfold [OF cs] show ?thesis
    by - (rule exI [of _ bp], rule exI [of _ bq], blast)
qed

text \<open>The sample \<open>j = 0\<close>: its value is 0 and the scan's best value is at least that.\<close>

theorem coarse_scan_maximum_witness:
  "\<exists>bp bq. coarse_scan q_of_p 2049 = Inr (bp, bq) \<and> q_of_p bp = Inr bq \<and>
     (0::nat) \<le> 2048 \<and> q_of_p (real 0 / 2048) = Inr 0 \<and> 0 \<le> bq"
proof -
  from coarse_scan_maximum obtain bp bq where
    cs: "coarse_scan q_of_p 2049 = Inr (bp, bq)" and q: "q_of_p bp = Inr bq"
    and dom: "\<forall>j. j \<le> 2048 \<longrightarrow> (\<exists>v. q_of_p (real j / 2048) = Inr v \<and> v \<le> bq)"
    by (elim exE conjE)
  from dom [rule_format, of 0] obtain v where
    v: "q_of_p (real 0 / 2048) = Inr v" "v \<le> bq" by auto
  with q_of_p_zero have "q_of_p (real 0 / 2048) = Inr 0" "0 \<le> bq" by simp_all
  with cs q show ?thesis
    by - (rule exI [of _ bp], rule exI [of _ bq], simp)
qed




end
